theory Spec2Isabelle
  imports Main
begin

section \<open>Strings and tokens\<close>

text \<open>
  A JavaScript string is a sequence of UTF-16 code units. Only the numeric value of a
  code unit matters to the compiler (the regular expressions classify single code
  units), so a code unit is a natural number and a string a list of them.
  \<open>js\<close> writes an ASCII literal as such a string.
\<close>

type_synonym code_unit = nat
type_synonym jsstring = "code_unit list"

definition js :: "string \<Rightarrow> jsstring" where
  "js s = map of_char s"

text \<open>
  \<open>input[i]\<close> and \<open>tokens[i]\<close>: the element at index \<open>i\<close> (of a string, the one-unit
  string there), or \<open>undefined\<close> (here \<open>None\<close>) when \<open>i\<close> is not an index.
\<close>

definition js_index :: "'a list \<Rightarrow> nat \<Rightarrow> 'a option" where
  "js_index s i = (if i < length s then Some (s ! i) else None)"

text \<open>
  The string a value of type \<open>string | undefined\<close> stands for where JavaScript
  converts it (\<open>RegExp.prototype.test\<close>, \<open>+=\<close> on a string): \<open>undefined\<close> becomes the
  nine-letter string "undefined".
\<close>

definition to_string :: "code_unit option \<Rightarrow> jsstring" where
  "to_string c = (case c of None \<Rightarrow> js ''undefined'' | Some u \<Rightarrow> [u])"

text \<open>
  The four regular expressions of \<open>tokenizer\<close>. None is anchored, so \<open>test\<close> holds
  when some code unit of the converted argument is in the class.
  \<open>/[a-z]/i\<close> has no \<open>u\<close> flag: it matches the ASCII letters only.
  \<open>/\s/\<close> matches the white space and line terminator code units of ECMAScript.
\<close>

definition numberReg_test :: "code_unit option \<Rightarrow> bool" where
  "numberReg_test c = (\<exists>u \<in> set (to_string c). 48 \<le> u \<and> u \<le> 57)"

definition letterReg_test :: "code_unit option \<Rightarrow> bool" where
  "letterReg_test c =
     (\<exists>u \<in> set (to_string c). (65 \<le> u \<and> u \<le> 90) \<or> (97 \<le> u \<and> u \<le> 122))"

definition parenReg_test :: "code_unit option \<Rightarrow> bool" where
  "parenReg_test c = (\<exists>u \<in> set (to_string c). u = 40 \<or> u = 41)"

definition whiteSpaceReg_test :: "code_unit option \<Rightarrow> bool" where
  "whiteSpaceReg_test c =
     (\<exists>u \<in> set (to_string c).
        u \<in> {9, 10, 11, 12, 13, 32, 160, 5760, 8232, 8233, 8239, 8287, 12288, 65279}
        \<or> (8192 \<le> u \<and> u \<le> 8202))"

text \<open>The double quote, code unit 34.\<close>

definition quote :: code_unit where
  "quote = 34"

datatype tokenType = name | paren | number | string

record token =
  tok_type :: tokenType
  tok_value :: jsstring

section \<open>The tokenizer\<close>

text \<open>
  Each inner \<open>while\<close> loop of \<open>tokenizer\<close> is a function of the loop's variables
  (\<open>current\<close>, \<open>char\<close> and the value collected so far) that returns them as they are
  when the loop is left. \<open>char = input[++current]\<close> increments \<open>current\<close> and then
  reads.

  The digit loop stops at the end of the input, where \<open>char\<close> is \<open>undefined\<close>.
\<close>

function number_loop ::
  "jsstring \<Rightarrow> nat \<Rightarrow> code_unit option \<Rightarrow> jsstring \<Rightarrow> nat \<times> code_unit option \<times> jsstring" where
  "number_loop input current char numberValue =
     (if numberReg_test char
      then number_loop input (current + 1) (js_index input (current + 1))
             (numberValue @ to_string (js_index input current))
      else (current, char, numberValue))"
  by pat_completeness auto
termination
  by (relation "measure (\<lambda>(input, current, char, numberValue).
        (length input - current) + (if numberReg_test char then 1 else 0))")
     (auto simp: js_index_def numberReg_test_def to_string_def js_def)

text \<open>
  The letter loop and the string loop may run forever: a function into \<open>option\<close>,
  where \<open>None\<close> is a loop that does not return.
\<close>

partial_function (option) letter_loop ::
  "jsstring \<Rightarrow> nat \<Rightarrow> code_unit option \<Rightarrow> jsstring \<Rightarrow> (nat \<times> code_unit option \<times> jsstring) option" where
  "letter_loop input current char letterValue =
     (if letterReg_test char
      then letter_loop input (current + 1) (js_index input (current + 1))
             (letterValue @ to_string (js_index input current))
      else Some (current, char, letterValue))"

declare letter_loop.simps [code]

partial_function (option) string_loop ::
  "jsstring \<Rightarrow> nat \<Rightarrow> code_unit option \<Rightarrow> jsstring \<Rightarrow> (nat \<times> code_unit option \<times> jsstring) option" where
  "string_loop input current char stringValue =
     (if char \<noteq> Some quote
      then string_loop input (current + 1) (js_index input (current + 1))
             (stringValue @ to_string char)
      else Some (current, char, stringValue))"

declare string_loop.simps [code]

text \<open>
  The outer loop, with the token array, the cursor and what \<open>console.log\<close> has
  printed (the character of each diagnostic). The \<open>default\<close> branch logs and leaves
  \<open>current\<close> as it is.
\<close>

partial_function (option) tokenizer_loop ::
  "jsstring \<Rightarrow> token list \<Rightarrow> nat \<Rightarrow> code_unit option list \<Rightarrow>
     (token list \<times> code_unit option list) option" where
  "tokenizer_loop input tokens current logged =
     (if current < length input then
        (let char = js_index input current in
         if numberReg_test char then
           (case number_loop input current char [] of
              (current', char', numberValue) \<Rightarrow>
                tokenizer_loop input
                  (tokens @ [\<lparr>tok_type = number, tok_value = numberValue\<rparr>]) current' logged)
         else if letterReg_test char then
           (case letter_loop input current char [] of
              None \<Rightarrow> None
            | Some (current', char', letterValue) \<Rightarrow>
                tokenizer_loop input
                  (tokens @ [\<lparr>tok_type = name, tok_value = letterValue\<rparr>]) current' logged)
         else if parenReg_test char then
           tokenizer_loop input
             (tokens @ [\<lparr>tok_type = paren, tok_value = to_string (js_index input current)\<rparr>])
             (current + 1) logged
         else if whiteSpaceReg_test char then
           tokenizer_loop input tokens (current + 1) logged
         else if char = Some quote then
           (case string_loop input (current + 1) (js_index input (current + 1)) [] of
              None \<Rightarrow> None
            | Some (current', char', stringValue) \<Rightarrow>
                tokenizer_loop input
                  (tokens @ [\<lparr>tok_type = string, tok_value = stringValue\<rparr>])
                  (current' + 1) logged)
         else
           tokenizer_loop input tokens current (logged @ [char]))
      else Some (tokens, logged))"

declare tokenizer_loop.simps [code]

definition tokenizer :: "jsstring \<Rightarrow> token list option" where
  "tokenizer input = map_option fst (tokenizer_loop input [] 0 [])"

section \<open>Syntax trees and errors\<close>

text \<open>
  A node of the source tree is an object with the fields of the interface \<open>node\<close>,
  each optional field present or not. An object has an identity; \<open>oid\<close> is the
  identity of the node, given to it when the object is created. Identities are the
  numbers of a single counter, which the parser and the transformer pass on.
\<close>

datatype nodeType = StringLiteral | NumberLiteral | CallExpression | Program

datatype node = Node (oid: nat) (node_type: nodeType) (params: "node list option")
  (node_value: "jsstring option") (node_name: "jsstring option") (body: "node list option")

text \<open>
  The only exception of the program is JavaScript's \<open>TypeError\<close>: the one that
  \<open>walk\<close> throws with the type of the token as its message, and the one the engine
  throws when a property of \<open>undefined\<close> is read.
\<close>

datatype error = TypeError String.literal

definition tokenType_text :: "tokenType \<Rightarrow> String.literal" where
  "tokenType_text t = (case t of name \<Rightarrow> STR ''name'' | paren \<Rightarrow> STR ''paren''
     | number \<Rightarrow> STR ''number'' | string \<Rightarrow> STR ''string'')"

definition undefined_read :: error where
  "undefined_read = TypeError (STR ''Cannot read properties of undefined'')"

section \<open>The parser\<close>

text \<open>
  \<open>walk\<close> and the \<open>while\<close> loop inside it, as functions of the variables they share
  through the closure: the cursor \<open>current\<close>, the variable \<open>token\<close> (which \<open>parser\<close>
  sets once to \<open>tokens[0]\<close> and \<open>walk\<close> sets again only inside its parenthesis
  branch) and the counter of identities. Each returns them with its result. The first
  argument bounds the depth of the recursion; \<open>None\<close> is a run that needs more.
\<close>

fun walk :: "nat \<Rightarrow> token list \<Rightarrow> nat \<Rightarrow> token option \<Rightarrow> nat \<Rightarrow>
    (error + node \<times> nat \<times> token option \<times> nat) option"
and params_loop :: "nat \<Rightarrow> token list \<Rightarrow> nat \<Rightarrow> token option \<Rightarrow> nat \<Rightarrow> node list \<Rightarrow>
    (error + node list \<times> nat \<times> token option \<times> nat) option" where
  "walk 0 tokens current token next_oid = None"
| "walk (Suc fuel) tokens current token next_oid =
     (case token of
        None \<Rightarrow> Some (Inl undefined_read)
      | Some t \<Rightarrow>
          (case tok_type t of
             number \<Rightarrow>
               Some (Inr (Node next_oid NumberLiteral None (Some (tok_value t)) None None,
                          current + 1, token, next_oid + 1))
           | string \<Rightarrow>
               Some (Inr (Node next_oid StringLiteral None (Some (tok_value t)) None None,
                          current + 1, token, next_oid + 1))
           | paren \<Rightarrow>
               if tok_value t = js ''('' then
                 (case js_index tokens (current + 1) of
                    None \<Rightarrow> Some (Inl undefined_read)
                  | Some t1 \<Rightarrow>
                      (case params_loop fuel tokens (current + 2)
                              (js_index tokens (current + 2)) (next_oid + 1) [] of
                         None \<Rightarrow> None
                       | Some (Inl e) \<Rightarrow> Some (Inl e)
                       | Some (Inr (ps, current', token', next_oid')) \<Rightarrow>
                           Some (Inr (Node next_oid CallExpression (Some ps) None
                                        (Some (tok_value t1)) None,
                                      current' + 1, token', next_oid'))))
               else Some (Inl (TypeError (tokenType_text (tok_type t))))
           | name \<Rightarrow> Some (Inl (TypeError (tokenType_text (tok_type t))))))"
| "params_loop 0 tokens current token next_oid ps = None"
| "params_loop (Suc fuel) tokens current token next_oid ps =
     (case token of
        None \<Rightarrow> Some (Inl undefined_read)
      | Some t \<Rightarrow>
          if tok_type t \<noteq> paren \<or> (tok_type t = paren \<and> tok_value t \<noteq> js '')'') then
            (case walk fuel tokens current token next_oid of
               None \<Rightarrow> None
             | Some (Inl e) \<Rightarrow> Some (Inl e)
             | Some (Inr (nd, current', token', next_oid')) \<Rightarrow>
                 params_loop fuel tokens current' (js_index tokens current') next_oid'
                   (ps @ [nd]))
          else Some (Inr (ps, current, token, next_oid)))"

text \<open>
  The loop of \<open>parser\<close> calls \<open>walk\<close> while \<open>current\<close> is an index of \<open>tokens\<close>; it
  does not read \<open>tokens[current]\<close> into \<open>token\<close>. The \<open>Program\<close> node is created
  before the loop runs, so it has the first identity.
\<close>

fun parser_loop :: "nat \<Rightarrow> token list \<Rightarrow> nat \<Rightarrow> token option \<Rightarrow> nat \<Rightarrow> node list \<Rightarrow>
    (error + node list \<times> nat) option" where
  "parser_loop 0 tokens current token next_oid bd = None"
| "parser_loop (Suc fuel) tokens current token next_oid bd =
     (if current < length tokens then
        (case walk fuel tokens current token next_oid of
           None \<Rightarrow> None
         | Some (Inl e) \<Rightarrow> Some (Inl e)
         | Some (Inr (nd, current', token', next_oid')) \<Rightarrow>
             parser_loop fuel tokens current' token' next_oid' (bd @ [nd]))
      else Some (Inr (bd, next_oid)))"

definition parser :: "token list \<Rightarrow> (error + node \<times> nat) option" where
  "parser tokens =
     (case parser_loop (2 * length tokens + 3) tokens 0 (js_index tokens 0) 1 [] of
        None \<Rightarrow> None
      | Some (Inl e) \<Rightarrow> Some (Inl e)
      | Some (Inr (bd, next_oid)) \<Rightarrow>
          Some (Inr (Node 0 Program None None None (Some bd), next_oid)))"

section \<open>The traverser\<close>

text \<open>
  A callback of a visitor gets the node and its parent (\<open>null\<close> is \<open>None\<close>) and acts
  on what lies outside the tree: a state \<open>'s\<close>, which it returns changed, or it
  throws. The visitor gives every node type its methods or none. The \<open>default\<close>
  branch of \<open>traverseNode\<close> cannot be reached, since \<open>nodeType\<close> has four members.
\<close>

type_synonym 's callback = "node \<Rightarrow> node option \<Rightarrow> 's \<Rightarrow> error + 's"

record 's methods =
  enter :: "'s callback option"
  exit :: "'s callback option"

type_synonym 's visitor = "nodeType \<Rightarrow> 's methods option"

definition call_method :: "'s callback option \<Rightarrow> 's callback" where
  "call_method m nd parent s = (case m of None \<Rightarrow> Inr s | Some f \<Rightarrow> f nd parent s)"

fun traverseNode :: "'s visitor \<Rightarrow> node \<Rightarrow> node option \<Rightarrow> 's \<Rightarrow> error + 's"
and traverseArray :: "'s visitor \<Rightarrow> node list \<Rightarrow> node \<Rightarrow> 's \<Rightarrow> error + 's" where
  "traverseNode visitor (Node i ty ps v n b) parent s =
     (let nd = Node i ty ps v n b; methods = visitor ty in
      case call_method (case methods of None \<Rightarrow> None | Some m \<Rightarrow> enter m) nd parent s of
        Inl e \<Rightarrow> Inl e
      | Inr s1 \<Rightarrow>
          (case (case ty of
                   NumberLiteral \<Rightarrow> Inr s1
                 | StringLiteral \<Rightarrow> Inr s1
                 | Program \<Rightarrow> (case b of None \<Rightarrow> Inr s1 | Some ns \<Rightarrow> traverseArray visitor ns nd s1)
                 | CallExpression \<Rightarrow>
                     (case ps of None \<Rightarrow> Inr s1 | Some ns \<Rightarrow> traverseArray visitor ns nd s1)) of
             Inl e \<Rightarrow> Inl e
           | Inr s2 \<Rightarrow>
               call_method (case methods of None \<Rightarrow> None | Some m \<Rightarrow> exit m) nd parent s2))"
| "traverseArray visitor [] parent s = Inr s"
| "traverseArray visitor (nd # ns) parent s =
     (case traverseNode visitor nd (Some parent) s of
        Inl e \<Rightarrow> Inl e
      | Inr s' \<Rightarrow> traverseArray visitor ns parent s')"

definition traverser :: "node \<Rightarrow> 's visitor \<Rightarrow> 's \<Rightarrow> error + 's" where
  "traverser ast visitor s = traverseNode visitor ast None s"

section \<open>The transformer\<close>

text \<open>
  The nodes of the target tree, with the fields of the interface \<open>parsedNode\<close>.
\<close>

datatype parsedNodeType = NodeType nodeType | Identifier | ExpressionStatement

datatype parsedNode = ParsedNode (p_oid: nat) (p_type: parsedNodeType)
  (p_value: "jsstring option") (p_name: "jsstring option")
  (p_expression: "parsedNode option") (p_arguments: "parsedNode list option")
  (p_body: "parsedNode list option") (p_callee: "parsedNode option")

text \<open>
  While the transformer runs, the arrays it creates are shared: the \<open>_context\<close>
  property of a source node refers to the \<open>arguments\<close> array of the target node built
  for it, and what is pushed through \<open>_context\<close> is seen through \<open>arguments\<close>. So an
  array has an identity too, and the store maps the identity of an array to its
  elements. An object the transformer creates refers to its arrays by identity; an
  element of an array is a source node (the object itself, pushed by a literal's
  \<open>enter\<close>) or a created object. \<open>node_context\<close> is the \<open>_context\<close> property of the
  source nodes, by identity of the node.
\<close>

datatype obj = Obj (obj_id: nat) (obj_type: parsedNodeType)
  (obj_value: "jsstring option") (obj_name: "jsstring option")
  (obj_expression: "obj option") (obj_arguments: "nat option")
  (obj_body: "nat option") (obj_callee: "obj option")

datatype elem = Source node | New obj

record store =
  arrays :: "nat \<Rightarrow> elem list option"
  node_context :: "nat \<Rightarrow> nat option"
  next_id :: nat

text \<open>
  \<open>parent['_context'].push(x)\<close>: a \<open>TypeError\<close> when the parent has no \<open>_context\<close>.
\<close>

definition push :: "nat option \<Rightarrow> elem \<Rightarrow> store \<Rightarrow> error + store" where
  "push ctx x st =
     (case ctx of
        None \<Rightarrow> Inl undefined_read
      | Some a \<Rightarrow>
          (case arrays st a of
             None \<Rightarrow> Inl undefined_read
           | Some xs \<Rightarrow> Inr (st\<lparr>arrays := (arrays st)(a \<mapsto> xs @ [x])\<rparr>)))"

definition literal_enter :: "store callback" where
  "literal_enter nd parent st =
     (case parent of
        None \<Rightarrow> Inr st
      | Some p \<Rightarrow> push (node_context st (oid p)) (Source nd) st)"

definition call_enter :: "store callback" where
  "call_enter nd parent st =
     (let callee = Obj (next_id st) Identifier None (node_name nd) None None None None;
          args = next_id st + 1;
          expression = Obj (next_id st + 2) (NodeType CallExpression) None None None
                         (Some args) None (Some callee);
          st1 = st\<lparr>arrays := (arrays st)(args \<mapsto> []),
                   node_context := (node_context st)(oid nd \<mapsto> args),
                   next_id := next_id st + 3\<rparr>
      in case parent of
           None \<Rightarrow> Inr st1
         | Some p \<Rightarrow>
             if node_type p \<noteq> CallExpression then
               push (node_context st1 (oid p))
                 (New (Obj (next_id st1) ExpressionStatement None None (Some expression)
                         None None None))
                 (st1\<lparr>next_id := next_id st1 + 1\<rparr>)
             else push (node_context st1 (oid p)) (New expression) st1)"

definition transformer_visitor :: "store visitor" where
  "transformer_visitor ty =
     (case ty of
        NumberLiteral \<Rightarrow> Some \<lparr>enter = Some literal_enter, exit = None\<rparr>
      | StringLiteral \<Rightarrow> Some \<lparr>enter = Some literal_enter, exit = None\<rparr>
      | CallExpression \<Rightarrow> Some \<lparr>enter = Some call_enter, exit = None\<rparr>
      | Program \<Rightarrow> None)"

text \<open>
  \<open>transformer\<close> creates the target \<open>Program\<close> and its \<open>body\<close>, sets the \<open>_context\<close> of
  the root and traverses. The source nodes come without a \<open>_context\<close>, as the parser
  makes them. The result is the new object and the store it lives in.
\<close>

definition transformer :: "node \<Rightarrow> nat \<Rightarrow> error + obj \<times> store" where
  "transformer ast next_oid =
     (let newAst = Obj next_oid (NodeType Program) None None None None (Some (next_oid + 1)) None;
          st = \<lparr>arrays = Map.empty(next_oid + 1 \<mapsto> []),
                node_context = Map.empty(oid ast \<mapsto> next_oid + 1),
                next_id = next_oid + 2\<rparr>
      in case traverser ast transformer_visitor st of
           Inl e \<Rightarrow> Inl e
         | Inr st' \<Rightarrow> Inr (newAst, st'))"

text \<open>
  The tree an object of the store stands for: every array replaced by its elements.
  A source node in an array is read through the interface \<open>parsedNode\<close>, which has no
  field \<open>params\<close>. The first argument bounds the depth.
\<close>

fun node_as_parsedNode :: "node \<Rightarrow> parsedNode" where
  "node_as_parsedNode (Node i ty ps v n b) =
     ParsedNode i (NodeType ty) v n None None
       (case b of None \<Rightarrow> None | Some ns \<Rightarrow> Some (map node_as_parsedNode ns)) None"

fun read_obj :: "nat \<Rightarrow> store \<Rightarrow> obj \<Rightarrow> parsedNode option"
and read_elems :: "nat \<Rightarrow> store \<Rightarrow> elem list \<Rightarrow> parsedNode list option" where
  "read_obj 0 st ob = None"
| "read_obj (Suc fuel) st (Obj i ty v n ex args bd cal) =
     (case (case ex of None \<Rightarrow> Some None | Some e \<Rightarrow> map_option Some (read_obj fuel st e)) of
        None \<Rightarrow> None
      | Some ex' \<Rightarrow>
     (case (case args of None \<Rightarrow> Some None
            | Some a \<Rightarrow> (case arrays st a of None \<Rightarrow> None
                         | Some es \<Rightarrow> map_option Some (read_elems fuel st es))) of
        None \<Rightarrow> None
      | Some args' \<Rightarrow>
     (case (case bd of None \<Rightarrow> Some None
            | Some a \<Rightarrow> (case arrays st a of None \<Rightarrow> None
                         | Some es \<Rightarrow> map_option Some (read_elems fuel st es))) of
        None \<Rightarrow> None
      | Some bd' \<Rightarrow>
     (case (case cal of None \<Rightarrow> Some None | Some c \<Rightarrow> map_option Some (read_obj fuel st c)) of
        None \<Rightarrow> None
      | Some cal' \<Rightarrow> Some (ParsedNode i ty v n ex' args' bd' cal')))))"
| "read_elems fuel st [] = Some []"
| "read_elems fuel st (Source nd # es) =
     (case read_elems fuel st es of None \<Rightarrow> None
      | Some ts \<Rightarrow> Some (node_as_parsedNode nd # ts))"
| "read_elems fuel st (New ob # es) =
     (case read_obj fuel st ob of None \<Rightarrow> None
      | Some t \<Rightarrow> (case read_elems fuel st es of None \<Rightarrow> None | Some ts \<Rightarrow> Some (t # ts)))"

text \<open>
  The tree that \<open>transformer\<close> returns, read from the final store. The bound on the
  depth is the number of identities given out.
\<close>

definition transformer_tree :: "node \<Rightarrow> nat \<Rightarrow> (error + parsedNode) option" where
  "transformer_tree ast next_oid =
     (case transformer ast next_oid of
        Inl e \<Rightarrow> Some (Inl e)
      | Inr (newAst, st) \<Rightarrow> map_option Inr (read_obj (next_id st) st newAst))"

section \<open>The code generator\<close>

text \<open>
  \<open>codeGenerator\<close> returns a string, an array (for a \<open>Program\<close>) or \<open>undefined\<close> (a
  missing field). \<open>+\<close> with a string converts its other operand to a string, and
  \<open>join\<close> writes \<open>undefined\<close> as the empty string.
\<close>

datatype jsval = Str jsstring | Arr "jsval list" | Undefined

fun join :: "jsstring \<Rightarrow> jsstring list \<Rightarrow> jsstring" where
  "join sep [] = []"
| "join sep [x] = x"
| "join sep (x # y # ys) = x @ sep @ join sep (y # ys)"

fun js_to_str :: "jsval \<Rightarrow> jsstring" where
  "js_to_str (Str s) = s"
| "js_to_str Undefined = js ''undefined''"
| "js_to_str (Arr xs) =
     join (js '','') (map (\<lambda>x. case x of Undefined \<Rightarrow> [] | _ \<Rightarrow> js_to_str x) xs)"

definition array_join :: "jsstring \<Rightarrow> jsval list \<Rightarrow> jsstring" where
  "array_join sep xs = join sep (map (\<lambda>x. case x of Undefined \<Rightarrow> [] | _ \<Rightarrow> js_to_str x) xs)"

definition opt_val :: "jsstring option \<Rightarrow> jsval" where
  "opt_val v = (case v of None \<Rightarrow> Undefined | Some s \<Rightarrow> Str s)"

text \<open>
  The \<open>switch\<close> of \<open>codeGenerator\<close> falls through: an \<open>ExpressionStatement\<close> without
  \<open>expression\<close> goes on as a \<open>CallExpression\<close>, and that one without \<open>callee\<close> as an
  \<open>Identifier\<close>. The \<open>default\<close> branch cannot be reached.
\<close>

fun codeGenerator :: "parsedNode \<Rightarrow> jsval" where
  "codeGenerator (ParsedNode i ty v n ex args bd cal) =
     (let identifier_case = opt_val n;
          call_case =
            (case cal of
               Some c \<Rightarrow>
                 Str (js_to_str (codeGenerator c) @ js ''(''
                      @ js_to_str (case args of
                                     None \<Rightarrow> Undefined
                                   | Some as \<Rightarrow> Str (array_join (js '','') (map codeGenerator as)))
                      @ js '')'')
             | None \<Rightarrow> identifier_case)
      in case ty of
           NodeType Program \<Rightarrow>
             (case bd of None \<Rightarrow> Undefined | Some ns \<Rightarrow> Arr (map codeGenerator ns))
         | ExpressionStatement \<Rightarrow>
             (case ex of
                Some e \<Rightarrow> Str (js_to_str (codeGenerator e) @ js '';'')
              | None \<Rightarrow> call_case)
         | NodeType CallExpression \<Rightarrow> call_case
         | Identifier \<Rightarrow> identifier_case
         | NodeType NumberLiteral \<Rightarrow> opt_val v
         | NodeType StringLiteral \<Rightarrow> Str ([quote] @ js_to_str (opt_val v) @ [quote]))"

section \<open>The compiler\<close>

text \<open>
  \<open>compiler\<close> runs the four stages; an exception of a stage is the exception of
  \<open>compiler\<close>. \<open>None\<close> is a run that does not return, \<open>Inl\<close> an exception. What
  \<open>console.log\<close> prints of the new tree is left out.
\<close>

definition compiler :: "jsstring \<Rightarrow> (error + jsval) option" where
  "compiler input =
     (case tokenizer input of
        None \<Rightarrow> None
      | Some tokens \<Rightarrow>
          (case parser tokens of
             None \<Rightarrow> None
           | Some (Inl e) \<Rightarrow> Some (Inl e)
           | Some (Inr (ast, next_oid)) \<Rightarrow>
               (case transformer_tree ast next_oid of
                  None \<Rightarrow> None
                | Some (Inl e) \<Rightarrow> Some (Inl e)
                | Some (Inr newAst) \<Rightarrow> Some (Inr (codeGenerator newAst)))))"

section \<open>The order of a traversal\<close>


fun spec_children :: "node \<Rightarrow> node list" where
  "spec_children (Node i ty ps v n b) =
     (case ty of
        Program \<Rightarrow> (case b of None \<Rightarrow> [] | Some ns \<Rightarrow> ns)
      | CallExpression \<Rightarrow> (case ps of None \<Rightarrow> [] | Some ns \<Rightarrow> ns)
      | NumberLiteral \<Rightarrow> []
      | StringLiteral \<Rightarrow> [])"

lemma spec_children_size: "c \<in> set (spec_children nd) \<Longrightarrow> size c < size nd"
  by (cases nd) (auto split: nodeType.splits option.splits
        simp: less_Suc_eq_le dest!: size_list_estimation' [where f = size and y = "size c"])




section \<open>Well-formed target trees and their rendering\<close>



section \<open>The target tree of a source tree\<close>

text \<open>
  The target node for a source node below the root, given whether the parent of the
  source node is a \<open>CallExpression\<close>, and the identity the next created object gets.
  A literal is the source node itself. A call becomes a \<open>CallExpression\<close> with an
  \<open>Identifier\<close> as callee and the targets of its \<open>params\<close> as arguments; it stands
  bare when the parent is a \<open>CallExpression\<close> and inside a new
  \<open>ExpressionStatement\<close> otherwise. The identities are those of the objects in the
  order \<open>transformer\<close> creates them: callee, arguments array, call, statement.
\<close>

fun spec_target :: "bool \<Rightarrow> node \<Rightarrow> nat \<Rightarrow> parsedNode \<times> nat"
and spec_targets :: "bool \<Rightarrow> node list \<Rightarrow> nat \<Rightarrow> parsedNode list \<times> nat" where
  "spec_target parent_is_call (Node i ty ps v n b) k =
     (case ty of
        CallExpression \<Rightarrow>
          (case (case ps of
                   None \<Rightarrow> ([], if parent_is_call then k + 3 else k + 4)
                 | Some xs \<Rightarrow> spec_targets True xs (if parent_is_call then k + 3 else k + 4)) of
             (args, k') \<Rightarrow>
               (let call = ParsedNode (k + 2) (NodeType CallExpression) None None None
                             (Some args) None
                             (Some (ParsedNode k Identifier None n None None None None))
                in (if parent_is_call then call
                    else ParsedNode (k + 3) ExpressionStatement None None (Some call)
                           None None None,
                    k')))
      | Program \<Rightarrow> (node_as_parsedNode (Node i ty ps v n b), k)
      | NumberLiteral \<Rightarrow> (node_as_parsedNode (Node i ty ps v n b), k)
      | StringLiteral \<Rightarrow> (node_as_parsedNode (Node i ty ps v n b), k))"
| "spec_targets parent_is_call [] k = ([], k)"
| "spec_targets parent_is_call (x # xs) k =
     (case spec_target parent_is_call x k of
        (t, k1) \<Rightarrow> (case spec_targets parent_is_call xs k1 of (ts, k2) \<Rightarrow> (t # ts, k2)))"

text \<open>
  A source node below the root: a literal, which is a leaf, or a call whose \<open>params\<close>
  are such nodes. No \<open>Program\<close> stands below the root.
\<close>

fun wf_expr :: "node \<Rightarrow> bool" where
  "wf_expr (Node i ty ps v n b) =
     (case ty of
        Program \<Rightarrow> False
      | CallExpression \<Rightarrow> (case ps of None \<Rightarrow> True | Some xs \<Rightarrow> list_all wf_expr xs)
      | NumberLiteral \<Rightarrow> ps = None \<and> b = None
      | StringLiteral \<Rightarrow> ps = None \<and> b = None)"

text \<open>
  The identities of the nodes of a source tree, and of its calls.
\<close>

function oids :: "node \<Rightarrow> nat list" where
  "oids nd = oid nd # concat (map oids (spec_children nd))"
  by pat_completeness auto
termination
  by (relation "measure size") (auto simp: spec_children_size)

declare oids.simps [simp del]

function call_oids :: "node \<Rightarrow> nat list" where
  "call_oids nd =
     (if node_type nd = CallExpression then [oid nd] else [])
       @ concat (map call_oids (spec_children nd))"
  by pat_completeness auto
termination
  by (relation "measure size") (auto simp: spec_children_size)

declare call_oids.simps [simp del]

text \<open>
  A valid source tree: a \<open>Program\<close> over such nodes, every node an object of its own.
\<close>

definition valid_ast :: "node \<Rightarrow> bool" where
  "valid_ast ast \<longleftrightarrow>
     node_type ast = Program \<and> list_all wf_expr (spec_children ast) \<and> distinct (oids ast)"

definition spec_transform :: "node \<Rightarrow> nat \<Rightarrow> parsedNode" where
  "spec_transform ast k =
     ParsedNode k (NodeType Program) None None None None
       (Some (fst (spec_targets False (spec_children ast) (k + 2)))) None"

text \<open>
  The number of \<open>CallExpression\<close> nodes of a source tree and of a target tree, and the
  nodes of each.
\<close>

function count_calls :: "node \<Rightarrow> nat" where
  "count_calls nd =
     (if node_type nd = CallExpression then 1 else 0)
       + sum_list (map count_calls (spec_children nd))"
  by pat_completeness auto
termination
  by (relation "measure size") (auto simp: spec_children_size)

declare count_calls.simps [simp del]

fun count_target_calls :: "parsedNode \<Rightarrow> nat" where
  "count_target_calls (ParsedNode i ty v n ex args bd cal) =
     (if ty = NodeType CallExpression then 1 else 0)
       + (case ex of None \<Rightarrow> 0 | Some e \<Rightarrow> count_target_calls e)
       + (case args of None \<Rightarrow> 0 | Some as \<Rightarrow> sum_list (map count_target_calls as))
       + (case bd of None \<Rightarrow> 0 | Some ns \<Rightarrow> sum_list (map count_target_calls ns))
       + (case cal of None \<Rightarrow> 0 | Some c \<Rightarrow> count_target_calls c)"





text \<open>
  The part of a store that holds the arrays with an identity in a range, and what one
  step of the traversal under a parent with the output array \<open>a\<close> does: it appends
  elements to \<open>a\<close>, which read as the given trees through the arrays created during
  the step alone; it leaves every other array that was there as it is; and it changes
  the \<open>_context\<close> of the listed nodes only.
\<close>

definition window :: "store \<Rightarrow> nat \<Rightarrow> nat \<Rightarrow> store" where
  "window st lo hi = st\<lparr>arrays := arrays st |` {lo..<hi}\<rparr>"

definition step_ok ::
  "store \<Rightarrow> store \<Rightarrow> nat \<Rightarrow> elem list \<Rightarrow> elem list \<Rightarrow> parsedNode list \<Rightarrow> nat list \<Rightarrow> bool" where
  "step_ok st st' a xs es ts os \<longleftrightarrow>
     next_id st \<le> next_id st'
     \<and> arrays st' a = Some (xs @ es)
     \<and> read_elems (next_id st' - next_id st) (window st' (next_id st) (next_id st')) es = Some ts
     \<and> (\<forall>b. b < next_id st \<and> b \<noteq> a \<longrightarrow> arrays st' b = arrays st b)
     \<and> (\<forall>j. j \<notin> set os \<longrightarrow> node_context st' j = node_context st j)"

text \<open>
  Nodes below the root whose identities are distinct and lie in a range.
\<close>

definition fresh_nodes :: "nat \<Rightarrow> nat \<Rightarrow> node list \<Rightarrow> bool" where
  "fresh_nodes lo hi ns \<longleftrightarrow>
     list_all wf_expr ns \<and> distinct (concat (map oids ns))
     \<and> set (concat (map oids ns)) \<subseteq> {lo..<hi}"

section \<open>Rules for runs on concrete inputs\<close>

text \<open>
  Unfolding a function at a bound on the depth that is a numeral.
\<close>

lemmas walk_numeral = walk.simps(2) [of "pred_numeral k", folded numeral_eq_Suc] for k
lemmas params_loop_numeral =
  params_loop.simps(2) [of "pred_numeral k", folded numeral_eq_Suc] for k
lemmas parser_loop_numeral =
  parser_loop.simps(2) [of "pred_numeral k", folded numeral_eq_Suc] for k
lemmas read_obj_numeral = read_obj.simps(2) [of "pred_numeral k", folded numeral_eq_Suc] for k

lemmas char_eval = js_def js_index_def numberReg_test_def letterReg_test_def
  parenReg_test_def whiteSpaceReg_test_def to_string_def quote_def

lemmas tokenizer_eval = tokenizer_def tokenizer_loop.simps letter_loop.simps
  string_loop.simps char_eval

lemmas parser_eval = parser_def walk_numeral params_loop_numeral parser_loop_numeral
  js_def js_index_def undefined_read_def tokenType_text_def

lemmas transformer_eval = transformer_def traverser_def transformer_visitor_def
  call_method_def literal_enter_def call_enter_def push_def Let_def undefined_read_def
  read_obj_numeral

lemmas generator_eval = array_join_def opt_val_def js_def quote_def

section \<open>Properties of the tokenizer\<close>

lemma tokenizer_loop_unrecognized:
  assumes "current < length input"
    and "\<not> numberReg_test (js_index input current)"
    and "\<not> letterReg_test (js_index input current)"
    and "\<not> parenReg_test (js_index input current)"
    and "\<not> whiteSpaceReg_test (js_index input current)"
    and "js_index input current \<noteq> Some quote"
  shows "tokenizer_loop input tokens current logged = None"
proof -
  have "\<not> (i = input \<and> c = current)" if "tokenizer_loop i ts c l = Some r" for i ts c l r
    by (rule tokenizer_loop.raw_induct
          [where P = "\<lambda>i ts c l r. \<not> (i = input \<and> c = current)", OF _ that])
       (use assms in \<open>fastforce simp: Let_def\<close>)
  then show ?thesis by (cases "tokenizer_loop input tokens current logged") blast+
qed

text \<open>
  C1. The claim: \<open>tokenize\<close> is total, and a character that is no digit, letter,
  parenthesis, white space or double quote is skipped with a logged diagnostic while
  scanning continues past it. On the input \<open>+\<close> the loop of \<open>tokenizer\<close> logs the
  character and does not advance the cursor, so it does not return.
\<close>

theorem tokenizer_plus_does_not_return:
  "tokenizer (js ''+'') = None"
proof -
  have "tokenizer_loop (js ''+'') [] 0 [] = None"
    by (rule tokenizer_loop_unrecognized)
       (simp_all add: js_def js_index_def numberReg_test_def letterReg_test_def
          parenReg_test_def whiteSpaceReg_test_def to_string_def quote_def)
  then show ?thesis by (simp add: tokenizer_def)
qed

text \<open>
  \<open>tokenizer\<close> does not return on an input that ends in a letter either: past the
  end \<open>char\<close> is \<open>undefined\<close>, which \<open>letterReg.test\<close> converts to the string
  "undefined", a string with letters in it, so the letter loop goes on.
\<close>

lemma letter_loop_past_end:
  assumes "length input \<le> c"
  shows "letter_loop input c None v = None"
proof -
  have "\<not> (length i \<le> c \<and> ch = None)" if "letter_loop i c ch v = Some r" for i c ch v r
    by (rule letter_loop.raw_induct
          [where P = "\<lambda>i c ch v r. \<not> (length i \<le> c \<and> ch = None)", OF _ that])
       (fastforce simp: letterReg_test_def to_string_def js_def js_index_def split: if_splits)
  then show ?thesis using assms
    by (cases "letter_loop input c None v") blast+
qed

lemma tokenizer_trailing_letter_does_not_return:
  "tokenizer (js ''a'') = None"
proof -
  have "letter_loop (js ''a'') 0 (js_index (js ''a'') 0) [] = None"
    by (subst letter_loop.simps) (simp add: char_eval letter_loop_past_end)
  then show ?thesis
    by (subst tokenizer_def, subst tokenizer_loop.simps) (simp add: char_eval)
qed














section \<open>Properties of the parser\<close>

text \<open>
  The bound on the depth that \<open>parser\<close> gives is enough: \<open>parser\<close> returns a tree or
  throws.
\<close>

lemma walk_params_loop_fuel:
  "(\<forall>current token nid. 2 * (length tokens - current) + 2 \<le> fuel \<longrightarrow>
      (\<exists>r. walk fuel tokens current token nid = Some r
         \<and> (\<forall>nd c' tk n'. r = Inr (nd, c', tk, n') \<longrightarrow> current < c')))
   \<and> (\<forall>current nid ps. 2 * (length tokens - current) + 3 \<le> fuel \<longrightarrow>
      (\<exists>r. params_loop fuel tokens current (js_index tokens current) nid ps = Some r
         \<and> (\<forall>ps' c' tk n'. r = Inr (ps', c', tk, n') \<longrightarrow> current \<le> c')))"
proof (induction fuel)
  case 0
  then show ?case by simp
next
  case (Suc fuel)
  note IHw = Suc.IH [THEN conjunct1, rule_format]
  note IHl = Suc.IH [THEN conjunct2, rule_format]
  have w: "\<exists>r. walk (Suc fuel) tokens current token nid = Some r
         \<and> (\<forall>nd c' tk n'. r = Inr (nd, c', tk, n') \<longrightarrow> current < c')"
    if le: "2 * (length tokens - current) + 2 \<le> Suc fuel" for current token nid
  proof (cases token)
    case None
    then show ?thesis by simp
  next
    case (Some t)
    show ?thesis
    proof (cases "tok_type t = paren \<and> tok_value t = js ''(''")
      case False
      with Some show ?thesis by (cases "tok_type t") auto
    next
      case True
      show ?thesis
      proof (cases "js_index tokens (current + 1)")
        case None
        with Some True show ?thesis by simp
      next
        case (Some t1)
        then have "current + 1 < length tokens"
          by (simp add: js_index_def split: if_splits)
        with le have "2 * (length tokens - (current + 2)) + 3 \<le> fuel" by arith
        from IHl [OF this, of "nid + 1" "[]"] obtain r where
          r: "params_loop fuel tokens (current + 2) (js_index tokens (current + 2)) (nid + 1) [] = Some r"
          and adv: "\<And>ps' c' tk n'. r = Inr (ps', c', tk, n') \<Longrightarrow> current + 2 \<le> c'"
          by blast
        show ?thesis
        proof (cases r)
          case (Inl e)
          with r Some \<open>token = Some t\<close> True show ?thesis by simp
        next
          case (Inr p)
          obtain ps' c' tk n' where p: "p = (ps', c', tk, n')" by (cases p) auto
          with Inr adv have "current + 2 \<le> c'" by simp
          with r Inr p Some \<open>token = Some t\<close> True show ?thesis by simp
        qed
      qed
    qed
  qed
  have l: "\<exists>r. params_loop (Suc fuel) tokens current (js_index tokens current) nid ps = Some r
         \<and> (\<forall>ps' c' tk n'. r = Inr (ps', c', tk, n') \<longrightarrow> current \<le> c')"
    if le: "2 * (length tokens - current) + 3 \<le> Suc fuel" for current nid ps
  proof (cases "js_index tokens current")
    case None
    then show ?thesis by simp
  next
    case (Some t)
    then have inb: "current < length tokens" by (simp add: js_index_def split: if_splits)
    show ?thesis
    proof (cases "tok_type t \<noteq> paren \<or> (tok_type t = paren \<and> tok_value t \<noteq> js '')'')")
      case False
      with Some show ?thesis by auto
    next
      case True
      from le have "2 * (length tokens - current) + 2 \<le> fuel" by arith
      from IHw [OF this, of "Some t" nid] obtain r where
        r: "walk fuel tokens current (Some t) nid = Some r"
        and adv: "\<And>nd c' tk n'. r = Inr (nd, c', tk, n') \<Longrightarrow> current < c'"
        by blast
      show ?thesis
      proof (cases r)
        case (Inl e)
        with r Some True show ?thesis by auto
      next
        case (Inr p)
        obtain nd c' tk n' where p: "p = (nd, c', tk, n')" by (cases p) auto
        with Inr adv have c': "current < c'" by simp
        with le inb have "2 * (length tokens - c') + 3 \<le> fuel" by arith
        from IHl [OF this, of n' "ps @ [nd]"] obtain r' where
          r': "params_loop fuel tokens c' (js_index tokens c') n' (ps @ [nd]) = Some r'"
          and adv': "\<And>ps' c'' tk n''. r' = Inr (ps', c'', tk, n'') \<Longrightarrow> c' \<le> c''"
          by blast
        from adv' c' have "\<forall>ps' c'' tk n''. r' = Inr (ps', c'', tk, n'') \<longrightarrow> current \<le> c''"
          by (auto dest!: adv')
        with r Inr p r' Some True show ?thesis by auto
      qed
    qed
  qed
  from w l show ?case by blast
qed

lemma parser_loop_fuel:
  "2 * (length tokens - current) + 3 \<le> fuel \<Longrightarrow>
     \<exists>r. parser_loop fuel tokens current token nid bd = Some r"
proof (induction fuel arbitrary: current token nid bd)
  case 0
  then show ?case by simp
next
  case (Suc fuel)
  show ?case
  proof (cases "current < length tokens")
    case False
    then show ?thesis by simp
  next
    case True
    from Suc.prems have "2 * (length tokens - current) + 2 \<le> fuel" by arith
    from walk_params_loop_fuel [THEN conjunct1, rule_format, OF this, of token nid]
    obtain r where r: "walk fuel tokens current token nid = Some r"
      and adv: "\<And>nd c' tk n'. r = Inr (nd, c', tk, n') \<Longrightarrow> current < c'"
      by blast
    show ?thesis
    proof (cases r)
      case (Inl e)
      with r True show ?thesis by simp
    next
      case (Inr p)
      obtain nd c' tk n' where p: "p = (nd, c', tk, n')" by (cases p) auto
      with Inr adv have "current < c'" by simp
      with Suc.prems True have "2 * (length tokens - c') + 3 \<le> fuel" by arith
      from Suc.IH [OF this, of tk n' "bd @ [nd]"] r Inr p True show ?thesis by simp
    qed
  qed
qed

lemma parser_returns_or_throws: "\<exists>r. parser tokens = Some r"
proof -
  from parser_loop_fuel [of tokens 0 "2 * length tokens + 3" "js_index tokens 0" 1 "[]"]
  obtain r where "parser_loop (2 * length tokens + 3) tokens 0 (js_index tokens 0) 1 [] = Some r"
    by auto
  then show ?thesis by (cases r) (auto simp: parser_def)
qed

text \<open>
  When \<open>walk\<close> has opened a call and returns it, the loop over the parameters has
  stopped at a closing parenthesis of the sequence. So a sequence that starts with an
  opening parenthesis and has no closing one makes \<open>parser\<close> throw.
\<close>

lemma params_loop_closes:
  "params_loop fuel tokens c (js_index tokens c) nid ps = Some (Inr (ps', c', tk, n')) \<Longrightarrow>
     \<exists>t. js_index tokens c' = Some t \<and> tok_type t = paren \<and> tok_value t = js '')''"
proof (induction fuel arbitrary: c nid ps)
  case 0
  then show ?case by simp
next
  case (Suc fuel)
  from Suc.prems obtain t where t: "js_index tokens c = Some t"
    by (cases "js_index tokens c") auto
  show ?case
  proof (cases "tok_type t \<noteq> paren \<or> (tok_type t = paren \<and> tok_value t \<noteq> js '')'')")
    case False
    with Suc.prems t have "c' = c" by auto
    with False t show ?thesis by (intro exI [of _ t]) simp
  next
    case True
    with Suc.prems t obtain nd c1 tk1 n1 where
      "params_loop fuel tokens c1 (js_index tokens c1) n1 (ps @ [nd]) = Some (Inr (ps', c', tk, n'))"
      by (auto split: option.splits sum.splits)
    then show ?thesis by (rule Suc.IH)
  qed
qed

lemma walk_call_closes:
  assumes "walk fuel tokens c (Some t) nid = Some (Inr r)" and "tok_type t = paren"
  shows "\<exists>x \<in> set tokens. tok_type x = paren \<and> tok_value x = js '')''"
proof (cases fuel)
  case 0
  with assms show ?thesis by simp
next
  case (Suc f)
  with assms obtain ps' c' tk n' where
    "params_loop f tokens (c + 2) (js_index tokens (c + 2)) (nid + 1) [] = Some (Inr (ps', c', tk, n'))"
    by (auto split: option.splits sum.splits if_splits)
  from params_loop_closes [OF this] obtain x where
    "js_index tokens c' = Some x" "tok_type x = paren" "tok_value x = js '')''"
    by blast
  then show ?thesis by (auto simp: js_index_def split: if_splits)
qed

lemma parser_unclosed_call_throws:
  assumes "tok_type t = paren" and "tok_value t = js ''(''"
    and "\<forall>x \<in> set ts. \<not> (tok_type x = paren \<and> tok_value x = js '')'')"
  shows "\<exists>e. parser (t # ts) = Some (Inl e)"
proof -
  let ?tokens = "t # ts"
  let ?f = "2 * length ?tokens + 2"
  from walk_params_loop_fuel [of ?tokens ?f, THEN conjunct1, rule_format, of 0 "Some t" 1]
  obtain r where r: "walk ?f ?tokens 0 (Some t) 1 = Some r" by auto
  have "\<exists>e. r = Inl e"
  proof (cases r)
    case (Inl e)
    then show ?thesis by simp
  next
    case (Inr p)
    with r walk_call_closes [of ?f ?tokens 0 t 1 p] assms
    show ?thesis by (auto simp: js_def)
  qed
  then obtain e where "r = Inl e" ..
  with r have "parser_loop (Suc ?f) ?tokens 0 (Some t) 1 [] = Some (Inl e)"
    by (simp del: walk.simps)
  moreover have "Suc ?f = 2 * length ?tokens + 3" by simp
  ultimately have "parser_loop (2 * length ?tokens + 3) ?tokens 0 (Some t) 1 [] = Some (Inl e)"
    by (simp only:)
  then show ?thesis by (simp add: parser_def js_index_def del: parser_loop.simps)
qed

section \<open>Properties of the traverser\<close>





section \<open>Properties of the code generator\<close>





section \<open>Properties of the transformer\<close>

lemma read_mono:
  "arrays st1 \<subseteq>\<^sub>m arrays st2 \<Longrightarrow> read_obj n st1 ob = Some t \<Longrightarrow> n \<le> m \<Longrightarrow>
     read_obj m st2 ob = Some t"
  "arrays st1 \<subseteq>\<^sub>m arrays st2 \<Longrightarrow> read_elems n st1 es = Some ts \<Longrightarrow> n \<le> m \<Longrightarrow>
     read_elems m st2 es = Some ts"
proof (induction n st1 ob and n st1 es arbitrary: t m and ts m rule: read_obj_read_elems.induct)
  case (1 st ob)
  then show ?case by simp
next
  case (2 fuel st i ty v n ex args bd cal)
  from "2.prems"(3) obtain m' where m: "m = Suc m'" and le: "fuel \<le> m'"
    by (cases m) auto
  from "2.prems"(2) obtain ex' args' bd' cal' where
    ex: "(case ex of None \<Rightarrow> Some None | Some e \<Rightarrow> map_option Some (read_obj fuel st e)) = Some ex'"
    and args: "(case args of None \<Rightarrow> Some None
            | Some a \<Rightarrow> (case arrays st a of None \<Rightarrow> None
                         | Some es \<Rightarrow> map_option Some (read_elems fuel st es))) = Some args'"
    and bd: "(case bd of None \<Rightarrow> Some None
            | Some a \<Rightarrow> (case arrays st a of None \<Rightarrow> None
                         | Some es \<Rightarrow> map_option Some (read_elems fuel st es))) = Some bd'"
    and cal: "(case cal of None \<Rightarrow> Some None | Some c \<Rightarrow> map_option Some (read_obj fuel st c)) = Some cal'"
    and t: "t = ParsedNode i ty v n ex' args' bd' cal'"
    by (auto split: option.splits)
  have ex2: "(case ex of None \<Rightarrow> Some None | Some e \<Rightarrow> map_option Some (read_obj m' st2 e)) = Some ex'"
    using ex "2.IH"(1) "2.prems"(1) le by (auto split: option.splits)
  have args2: "(case args of None \<Rightarrow> Some None
            | Some a \<Rightarrow> (case arrays st2 a of None \<Rightarrow> None
                         | Some es \<Rightarrow> map_option Some (read_elems m' st2 es))) = Some args'"
  proof (cases args)
    case None
    with args show ?thesis by simp
  next
    case (Some a)
    with args obtain es ts where es: "arrays st a = Some es"
      and r: "read_elems fuel st es = Some ts" and a': "args' = Some ts"
      by (auto split: option.splits)
    from es "2.prems"(1) have es2: "arrays st2 a = Some es"
      by (auto simp: map_le_def dom_def)
    from "2.IH"(2) [OF ex Some es "2.prems"(1) r le] es2 a' Some show ?thesis by simp
  qed
  have bd2: "(case bd of None \<Rightarrow> Some None
            | Some a \<Rightarrow> (case arrays st2 a of None \<Rightarrow> None
                         | Some es \<Rightarrow> map_option Some (read_elems m' st2 es))) = Some bd'"
  proof (cases bd)
    case None
    with bd show ?thesis by simp
  next
    case (Some a)
    with bd obtain es ts where es: "arrays st a = Some es"
      and r: "read_elems fuel st es = Some ts" and a': "bd' = Some ts"
      by (auto split: option.splits)
    from es "2.prems"(1) have es2: "arrays st2 a = Some es"
      by (auto simp: map_le_def dom_def)
    from "2.IH"(3) [OF ex args Some es "2.prems"(1) r le] es2 a' Some show ?thesis by simp
  qed
  have cal2: "(case cal of None \<Rightarrow> Some None | Some c \<Rightarrow> map_option Some (read_obj m' st2 c)) = Some cal'"
    using cal "2.IH"(4) [OF ex args bd] "2.prems"(1) le by (auto split: option.splits)
  from ex2 args2 bd2 cal2 t m show ?case by simp
next
  case (3 fuel st)
  then show ?case by simp
next
  case (4 fuel st nd es)
  then show ?case by (auto split: option.splits)
next
  case (5 fuel st ob es)
  then show ?case by (auto split: option.splits)
qed

lemma read_elems_append:
  "read_elems f st (es @ es') =
     (case read_elems f st es of
        None \<Rightarrow> None
      | Some ts \<Rightarrow> (case read_elems f st es' of None \<Rightarrow> None | Some ts' \<Rightarrow> Some (ts @ ts')))"
proof (induction es)
  case Nil
  then show ?case by (simp split: option.splits)
next
  case (Cons e es)
  then show ?case by (cases e) (simp_all split: option.splits)
qed

lemma arrays_window [simp]:
  "arrays (window st lo hi) b = (if lo \<le> b \<and> b < hi then arrays st b else None)"
  by (simp add: window_def restrict_map_def)

lemma step_ok_refl: "arrays st a = Some xs \<Longrightarrow> step_ok st st a xs [] [] []"
  by (simp add: step_ok_def)

lemma step_ok_trans:
  assumes s1: "step_ok st st1 a xs es1 ts1 os1"
    and s2: "step_ok st1 st2 a (xs @ es1) es2 ts2 os2"
    and a: "a < next_id st"
  shows "step_ok st st2 a xs (es1 @ es2) (ts1 @ ts2) (os1 @ os2)"
proof -
  let ?K = "next_id st" and ?K1 = "next_id st1" and ?K2 = "next_id st2"
  from s1 s2 have le: "?K \<le> ?K1" "?K1 \<le> ?K2" by (auto simp: step_ok_def)
  from s1 have r1: "read_elems (?K1 - ?K) (window st1 ?K ?K1) es1 = Some ts1"
    by (simp add: step_ok_def)
  from s2 have r2: "read_elems (?K2 - ?K1) (window st2 ?K1 ?K2) es2 = Some ts2"
    by (simp add: step_ok_def)
  from s2 have frame2: "\<And>b. b < ?K1 \<Longrightarrow> b \<noteq> a \<Longrightarrow> arrays st2 b = arrays st1 b"
    by (simp add: step_ok_def)
  have m1: "arrays (window st1 ?K ?K1) \<subseteq>\<^sub>m arrays (window st2 ?K ?K2)"
    using le a frame2 by (auto simp: map_le_def split: if_splits)
  have m2: "arrays (window st2 ?K1 ?K2) \<subseteq>\<^sub>m arrays (window st2 ?K ?K2)"
    using le by (auto simp: map_le_def split: if_splits)
  from read_mono(2) [OF m1 r1, of "?K2 - ?K"] le
  have r1': "read_elems (?K2 - ?K) (window st2 ?K ?K2) es1 = Some ts1" by simp
  from read_mono(2) [OF m2 r2, of "?K2 - ?K"] le
  have r2': "read_elems (?K2 - ?K) (window st2 ?K ?K2) es2 = Some ts2" by simp
  from r1' r2' have "read_elems (?K2 - ?K) (window st2 ?K ?K2) (es1 @ es2) = Some (ts1 @ ts2)"
    by (simp add: read_elems_append)
  moreover from s1 s2 le have "\<forall>b. b < ?K \<and> b \<noteq> a \<longrightarrow> arrays st2 b = arrays st b"
    by (auto simp: step_ok_def)
  moreover from s1 s2 have "\<forall>j. j \<notin> set (os1 @ os2) \<longrightarrow> node_context st2 j = node_context st j"
    by (auto simp: step_ok_def)
  moreover from s2 have "arrays st2 a = Some (xs @ es1 @ es2)" by (simp add: step_ok_def)
  ultimately show ?thesis using le by (simp add: step_ok_def)
qed

lemma call_oids_subset: "set (call_oids nd) \<subseteq> set (oids nd)"
proof (induction nd rule: oids.induct)
  case (1 nd)
  then show ?case
    by (subst call_oids.simps, subst oids.simps) auto
qed

lemma transform_nodes:
  assumes IH: "\<And>x p st a xs. x \<in> set ns \<Longrightarrow> wf_expr x \<Longrightarrow> distinct (oids x) \<Longrightarrow>
      oid p \<notin> set (oids x) \<Longrightarrow> node_context st (oid p) = Some a \<Longrightarrow>
      arrays st a = Some xs \<Longrightarrow> a < next_id st \<Longrightarrow>
      \<exists>st' e. traverseNode transformer_visitor x (Some p) st = Inr st'
        \<and> next_id st' = snd (spec_target (node_type p = CallExpression) x (next_id st))
        \<and> step_ok st st' a xs [e]
             [fst (spec_target (node_type p = CallExpression) x (next_id st))] (oids x)
        \<and> (\<forall>j \<in> set (call_oids x). node_context st' j \<noteq> None)"
    and wf: "list_all wf_expr ns"
    and dist: "distinct (concat (map oids ns))"
    and par: "oid p \<notin> set (concat (map oids ns))"
    and ctx: "node_context st (oid p) = Some a"
    and arr: "arrays st a = Some xs"
    and a: "a < next_id st"
  shows "\<exists>st' es. traverseArray transformer_visitor ns p st = Inr st'
        \<and> next_id st' = snd (spec_targets (node_type p = CallExpression) ns (next_id st))
        \<and> step_ok st st' a xs es
             (fst (spec_targets (node_type p = CallExpression) ns (next_id st)))
             (concat (map oids ns))
        \<and> (\<forall>j \<in> set (concat (map call_oids ns)). node_context st' j \<noteq> None)"
  using assms
proof (induction ns arbitrary: st xs)
  case Nil
  from Nil.prems(6) have "step_ok st st a xs [] [] []" by (rule step_ok_refl)
  then show ?case by auto
next
  case (Cons x ns)
  let ?pc = "node_type p = CallExpression"
  from Cons.prems(3) have dx: "distinct (oids x)" and dns: "distinct (concat (map oids ns))"
    and disj: "set (oids x) \<inter> set (concat (map oids ns)) = {}"
    by auto
  from Cons.prems(4) have px: "oid p \<notin> set (oids x)"
    and pns: "oid p \<notin> set (concat (map oids ns))" by auto
  from Cons.prems(2) have wx: "wf_expr x" and wns: "list_all wf_expr ns" by auto
  from Cons.prems(1) [OF _ wx dx px Cons.prems(5) Cons.prems(6) Cons.prems(7)]
  obtain st1 e where t1: "traverseNode transformer_visitor x (Some p) st = Inr st1"
    and k1: "next_id st1 = snd (spec_target ?pc x (next_id st))"
    and s1: "step_ok st st1 a xs [e] [fst (spec_target ?pc x (next_id st))] (oids x)"
    and c1: "\<forall>j \<in> set (call_oids x). node_context st1 j \<noteq> None"
    by auto
  from s1 px Cons.prems(5) have ctx1: "node_context st1 (oid p) = Some a"
    by (simp add: step_ok_def)
  from s1 have arr1: "arrays st1 a = Some (xs @ [e])" by (simp add: step_ok_def)
  from s1 Cons.prems(7) have a1: "a < next_id st1" by (simp add: step_ok_def)
  have "\<exists>st' es. traverseArray transformer_visitor ns p st1 = Inr st'
        \<and> next_id st' = snd (spec_targets ?pc ns (next_id st1))
        \<and> step_ok st1 st' a (xs @ [e]) es (fst (spec_targets ?pc ns (next_id st1)))
             (concat (map oids ns))
        \<and> (\<forall>j \<in> set (concat (map call_oids ns)). node_context st' j \<noteq> None)"
    by (rule Cons.IH [OF _ wns dns pns ctx1 arr1 a1]) (rule Cons.prems(1), auto)
  then obtain st2 es where t2: "traverseArray transformer_visitor ns p st1 = Inr st2"
    and k2: "next_id st2 = snd (spec_targets ?pc ns (next_id st1))"
    and s2: "step_ok st1 st2 a (xs @ [e]) es (fst (spec_targets ?pc ns (next_id st1)))
             (concat (map oids ns))"
    and c2: "\<forall>j \<in> set (concat (map call_oids ns)). node_context st2 j \<noteq> None"
    by auto
  from step_ok_trans [OF s1 s2 Cons.prems(7)]
  have s: "step_ok st st2 a xs ([e] @ es)
      ([fst (spec_target ?pc x (next_id st))] @ fst (spec_targets ?pc ns (next_id st1)))
      (oids x @ concat (map oids ns))" .
  have sub: "set (call_oids x) \<subseteq> set (oids x)" by (rule call_oids_subset)
  have "\<forall>j \<in> set (call_oids x). node_context st2 j \<noteq> None"
  proof
    fix j assume j: "j \<in> set (call_oids x)"
    with sub disj have "j \<notin> set (concat (map oids ns))" by auto
    with s2 have "node_context st2 j = node_context st1 j" by (simp add: step_ok_def)
    with c1 j show "node_context st2 j \<noteq> None" by simp
  qed
  with c2 have c: "\<forall>j \<in> set (concat (map call_oids (x # ns))). node_context st2 j \<noteq> None"
    by auto
  from t1 t2 have "traverseArray transformer_visitor (x # ns) p st = Inr st2" by simp
  moreover from k1 k2 have "next_id st2 = snd (spec_targets ?pc (x # ns) (next_id st))"
    by (simp add: case_prod_beta)
  moreover from s k1 have "step_ok st st2 a xs ([e] @ es)
      (fst (spec_targets ?pc (x # ns) (next_id st))) (concat (map oids (x # ns)))"
    by (simp add: case_prod_beta)
  ultimately show ?case using c by blast
qed

lemma read_identifier:
  "0 < f \<Longrightarrow> read_obj f st (Obj k Identifier None n None None None None)
     = Some (ParsedNode k Identifier None n None None None None)"
  by (cases f) simp_all

lemma read_call:
  assumes "0 < f" and "arrays st a = Some es" and "read_elems f st es = Some ts"
  shows "read_obj (Suc f) st
           (Obj i (NodeType CallExpression) None None None (Some a) None
              (Some (Obj k Identifier None n None None None None)))
         = Some (ParsedNode i (NodeType CallExpression) None None None (Some ts) None
              (Some (ParsedNode k Identifier None n None None None None)))"
  using assms by (simp add: read_identifier)

lemma read_statement:
  assumes "read_obj f st ob = Some t"
  shows "read_obj (Suc f) st (Obj j ExpressionStatement None None (Some ob) None None None)
         = Some (ParsedNode j ExpressionStatement None None (Some t) None None None)"
  using assms by simp

lemma read_elems_single:
  "read_obj f st ob = Some t \<Longrightarrow> read_elems f st [New ob] = Some [t]"
  by simp

lemma call_enter_effect:
  assumes ctx: "node_context st (oid p) = Some a" and arr: "arrays st a = Some xs"
    and a: "a < next_id st" and neq: "oid p \<noteq> oid nd"
  shows "call_enter nd (Some p) st =
     Inr (st\<lparr>arrays := (arrays st)(next_id st + 1 \<mapsto> [],
                  a \<mapsto> xs @ [if node_type p \<noteq> CallExpression
                    then New (Obj (next_id st + 3) ExpressionStatement None None
                      (Some (Obj (next_id st + 2) (NodeType CallExpression) None None None
                         (Some (next_id st + 1)) None
                         (Some (Obj (next_id st) Identifier None (node_name nd) None None None None))))
                      None None None)
                    else New (Obj (next_id st + 2) (NodeType CallExpression) None None None
                         (Some (next_id st + 1)) None
                         (Some (Obj (next_id st) Identifier None (node_name nd) None None None None)))]),
             node_context := (node_context st)(oid nd \<mapsto> next_id st + 1),
             next_id := (if node_type p \<noteq> CallExpression then next_id st + 4 else next_id st + 3)\<rparr>)"
  using assms by (auto simp: call_enter_def push_def Let_def)

lemma oids_Node:
  "oids (Node i ty ps v n b) = i # concat (map oids (spec_children (Node i ty ps v n b)))"
  by (subst oids.simps) simp

lemma call_oids_Node:
  "call_oids (Node i ty ps v n b) =
     (if ty = CallExpression then [i] else [])
       @ concat (map call_oids (spec_children (Node i ty ps v n b)))"
  by (subst call_oids.simps) simp

lemma transform_literal:
  assumes ty: "ty = NumberLiteral \<or> ty = StringLiteral"
    and ctx: "node_context st (oid p) = Some a" and arr: "arrays st a = Some xs"
  shows "\<exists>st'. traverseNode transformer_visitor (Node i ty None v n None) (Some p) st = Inr st'
        \<and> next_id st' = snd (spec_target pc (Node i ty None v n None) (next_id st))
        \<and> step_ok st st' a xs [Source (Node i ty None v n None)]
             [fst (spec_target pc (Node i ty None v n None) (next_id st))]
             (oids (Node i ty None v n None))
        \<and> (\<forall>j \<in> set (call_oids (Node i ty None v n None)). node_context st' j \<noteq> None)"
  using assms
  by (auto simp: transformer_visitor_def call_method_def literal_enter_def push_def
        step_ok_def oids_Node call_oids_Node)

lemma transform_node:
  "wf_expr nd \<Longrightarrow> distinct (oids nd) \<Longrightarrow> oid p \<notin> set (oids nd) \<Longrightarrow>
   node_context st (oid p) = Some a \<Longrightarrow> arrays st a = Some xs \<Longrightarrow> a < next_id st \<Longrightarrow>
   \<exists>st' e. traverseNode transformer_visitor nd (Some p) st = Inr st'
     \<and> next_id st' = snd (spec_target (node_type p = CallExpression) nd (next_id st))
     \<and> step_ok st st' a xs [e]
          [fst (spec_target (node_type p = CallExpression) nd (next_id st))] (oids nd)
     \<and> (\<forall>j \<in> set (call_oids nd). node_context st' j \<noteq> None)"
proof (induction nd arbitrary: p st a xs rule: oids.induct)
  case (1 nd)
  obtain i ty ps v n b where nd: "nd = Node i ty ps v n b" by (cases nd)
  let ?K = "next_id st" and ?pc = "node_type p = CallExpression"
  show ?case
  proof (cases "ty = CallExpression")
    case False
    with "1.prems"(1) nd have lit: "ty = NumberLiteral \<or> ty = StringLiteral"
      and "ps = None" "b = None"
      by (cases ty; simp)+
    with transform_literal [OF lit "1.prems"(4) "1.prems"(5), of i v n ?pc] nd
    show ?thesis by blast
  next
    case True
    let ?cs = "spec_children nd"
    let ?callee = "Obj ?K Identifier None n None None None None"
    let ?call = "Obj (?K + 2) (NodeType CallExpression) None None None (Some (?K + 1)) None
                   (Some ?callee)"
    define e where "e = (if \<not> ?pc
      then New (Obj (?K + 3) ExpressionStatement None None (Some ?call) None None None)
      else New ?call)"
    define K2 where "K2 = (if \<not> ?pc then ?K + 4 else ?K + 3)"
    define st2 where "st2 = st\<lparr>arrays := (arrays st)(?K + 1 \<mapsto> [], a \<mapsto> xs @ [e]),
             node_context := (node_context st)(i \<mapsto> ?K + 1), next_id := K2\<rparr>"
    from "1.prems"(3) nd have neq: "oid p \<noteq> oid nd" by (simp add: oids_Node)
    have enter: "call_enter nd (Some p) st = Inr st2"
      using call_enter_effect [OF "1.prems"(4) "1.prems"(5) "1.prems"(6) neq] nd
      by (simp add: st2_def e_def K2_def)
    have K2: "?K + 3 \<le> K2" "K2 \<le> ?K + 4" by (simp_all add: K2_def)
    have wcs: "list_all wf_expr ?cs"
      using "1.prems"(1) nd True by (simp split: option.splits)
    have dcs: "distinct (concat (map oids ?cs))" and ics: "oid nd \<notin> set (concat (map oids ?cs))"
      using "1.prems"(2) nd by (simp_all add: oids_Node)
    have ctx2: "node_context st2 (oid nd) = Some (?K + 1)" by (simp add: st2_def nd)
    have arr2: "arrays st2 (?K + 1) = Some []"
      using "1.prems"(6) by (simp add: st2_def)
    have a2: "?K + 1 < next_id st2" using K2 by (simp add: st2_def)
    have "\<exists>st' es. traverseArray transformer_visitor ?cs nd st2 = Inr st'
        \<and> next_id st' = snd (spec_targets (node_type nd = CallExpression) ?cs (next_id st2))
        \<and> step_ok st2 st' (?K + 1) [] es
             (fst (spec_targets (node_type nd = CallExpression) ?cs (next_id st2)))
             (concat (map oids ?cs))
        \<and> (\<forall>j \<in> set (concat (map call_oids ?cs)). node_context st' j \<noteq> None)"
      by (rule transform_nodes [OF _ wcs dcs ics ctx2 arr2 a2]) (rule "1.IH")
    then obtain st' es where tr: "traverseArray transformer_visitor ?cs nd st2 = Inr st'"
      and k': "next_id st' = snd (spec_targets True ?cs K2)"
      and s': "step_ok st2 st' (?K + 1) [] es (fst (spec_targets True ?cs K2))
             (concat (map oids ?cs))"
      and c': "\<forall>j \<in> set (concat (map call_oids ?cs)). node_context st' j \<noteq> None"
      using nd True by (auto simp: st2_def)
    let ?K' = "next_id st'"
    let ?ts = "fst (spec_targets True ?cs K2)"
    let ?W = "window st' ?K ?K'"
    from s' have le: "K2 \<le> ?K'" by (simp add: step_ok_def st2_def)
    from s' have es: "arrays st' (?K + 1) = Some es" by (simp add: step_ok_def)
    from s' have rd: "read_elems (?K' - K2) (window st' K2 ?K') es = Some ?ts"
      by (simp add: step_ok_def st2_def)
    from s' K2 "1.prems"(6) have frame: "\<And>b. b < K2 \<Longrightarrow> b \<noteq> ?K + 1 \<Longrightarrow> arrays st' b = arrays st2 b"
      by (simp add: step_ok_def st2_def)
    from s' have ctxf: "\<And>j. j \<notin> set (concat (map oids ?cs)) \<Longrightarrow>
        node_context st' j = node_context st2 j"
      by (simp add: step_ok_def)
    have trav: "traverseNode transformer_visitor nd (Some p) st = Inr st'"
    proof (cases ps)
      case None
      with tr nd True enter show ?thesis
        by (simp add: transformer_visitor_def call_method_def)
    next
      case (Some cs)
      with tr nd True enter show ?thesis
        by (simp add: transformer_visitor_def call_method_def)
    qed
    have tgt: "spec_target ?pc nd ?K =
      (if ?pc then ParsedNode (?K + 2) (NodeType CallExpression) None None None
                             (Some ?ts) None
                             (Some (ParsedNode ?K Identifier None n None None None None))
       else ParsedNode (?K + 3) ExpressionStatement None None
              (Some (ParsedNode (?K + 2) (NodeType CallExpression) None None None
                             (Some ?ts) None
                             (Some (ParsedNode ?K Identifier None n None None None None))))
              None None None, ?K')"
      using nd True k' by (cases ps) (auto simp: K2_def Let_def case_prod_beta)
    have mW: "arrays (window st' K2 ?K') \<subseteq>\<^sub>m arrays ?W"
      using K2 by (auto simp: map_le_def)
    have esW: "arrays ?W (?K + 1) = Some es" using es le K2 by simp
    have rcall: "read_obj (Suc f) ?W ?call
         = Some (ParsedNode (?K + 2) (NodeType CallExpression) None None None (Some ?ts) None
              (Some (ParsedNode ?K Identifier None n None None None None)))"
      if "0 < f" "?K' - K2 \<le> f" for f
      using that read_mono(2) [OF mW rd, of f] esW by (intro read_call) auto
    have rd_e: "read_elems (?K' - ?K) ?W [e] = Some [fst (spec_target ?pc nd ?K)]"
    proof (cases ?pc)
      case True
      from le K2 have f: "Suc (?K' - ?K - 1) = ?K' - ?K" and "0 < ?K' - ?K - 1"
        "?K' - K2 \<le> ?K' - ?K - 1" by auto
      from rcall [OF this(2,3)] have "read_obj (?K' - ?K) ?W ?call
         = Some (ParsedNode (?K + 2) (NodeType CallExpression) None None None (Some ?ts) None
              (Some (ParsedNode ?K Identifier None n None None None None)))"
        by (simp only: f)
      then have "read_elems (?K' - ?K) ?W [New ?call]
         = Some [ParsedNode (?K + 2) (NodeType CallExpression) None None None (Some ?ts) None
              (Some (ParsedNode ?K Identifier None n None None None None))]"
        by (rule read_elems_single)
      moreover from True have "e = New ?call" by (simp add: e_def)
      moreover from True tgt have "fst (spec_target ?pc nd ?K)
         = ParsedNode (?K + 2) (NodeType CallExpression) None None None (Some ?ts) None
              (Some (ParsedNode ?K Identifier None n None None None None))"
        by simp
      ultimately show ?thesis by (simp only:)
    next
      case False
      from le K2 False have f: "Suc (Suc (?K' - ?K - 2)) = ?K' - ?K" and "0 < ?K' - ?K - 2"
        "?K' - K2 \<le> ?K' - ?K - 2" by (auto simp: K2_def)
      from read_statement [OF rcall [OF this(2,3)], of "?K + 3"]
      have "read_obj (?K' - ?K) ?W
          (Obj (?K + 3) ExpressionStatement None None (Some ?call) None None None)
         = Some (ParsedNode (?K + 3) ExpressionStatement None None
              (Some (ParsedNode (?K + 2) (NodeType CallExpression) None None None
                             (Some ?ts) None
                             (Some (ParsedNode ?K Identifier None n None None None None))))
              None None None)"
        by (simp only: f)
      then have "read_elems (?K' - ?K) ?W
          [New (Obj (?K + 3) ExpressionStatement None None (Some ?call) None None None)]
         = Some [ParsedNode (?K + 3) ExpressionStatement None None
              (Some (ParsedNode (?K + 2) (NodeType CallExpression) None None None
                             (Some ?ts) None
                             (Some (ParsedNode ?K Identifier None n None None None None))))
              None None None]"
        by (rule read_elems_single)
      moreover from False have "e = New (Obj (?K + 3) ExpressionStatement None None
          (Some ?call) None None None)" by (simp add: e_def)
      moreover from False tgt have "fst (spec_target ?pc nd ?K)
         = ParsedNode (?K + 3) ExpressionStatement None None
              (Some (ParsedNode (?K + 2) (NodeType CallExpression) None None None
                             (Some ?ts) None
                             (Some (ParsedNode ?K Identifier None n None None None None))))
              None None None"
        by simp
      ultimately show ?thesis by (simp only:)
    qed
    have arr_a: "arrays st' a = Some (xs @ [e])"
      using frame [of a] "1.prems"(6) K2 by (simp add: st2_def)
    have fr: "\<forall>b. b < ?K \<and> b \<noteq> a \<longrightarrow> arrays st' b = arrays st b"
      using frame K2 by (auto simp: st2_def)
    have cx: "\<forall>j. j \<notin> set (oids nd) \<longrightarrow> node_context st' j = node_context st j"
      using ctxf nd by (auto simp: oids_Node st2_def)
    have step: "step_ok st st' a xs [e] [fst (spec_target ?pc nd ?K)] (oids nd)"
      using le K2 arr_a rd_e fr cx by (simp add: step_ok_def)
    have "node_context st' (oid nd) \<noteq> None"
      using ctxf [OF ics] ctx2 by simp
    with c' nd True have calls: "\<forall>j \<in> set (call_oids nd). node_context st' j \<noteq> None"
      by (auto simp: call_oids_Node)
    from trav tgt step calls show ?thesis by auto
  qed
qed

lemma transformer_valid:
  assumes "valid_ast ast"
  shows "\<exists>newAst st. transformer ast k = Inr (newAst, st)
     \<and> read_obj (next_id st) st newAst = Some (spec_transform ast k)
     \<and> node_context st (oid ast) \<noteq> None
     \<and> (\<forall>j \<in> set (call_oids ast). node_context st j \<noteq> None)"
proof -
  obtain i ty ps v n b where ast: "ast = Node i ty ps v n b" by (cases ast)
  from assms ast have ty: "ty = Program" by (simp add: valid_ast_def)
  let ?cs = "spec_children ast"
  let ?newAst = "Obj k (NodeType Program) None None None None (Some (k + 1)) None"
  define st0 where "st0 = \<lparr>arrays = Map.empty(k + 1 \<mapsto> []),
      node_context = Map.empty(oid ast \<mapsto> k + 1), next_id = k + 2\<rparr>"
  from assms have wcs: "list_all wf_expr ?cs" by (simp add: valid_ast_def)
  from assms have "distinct (oids ast)" by (simp add: valid_ast_def)
  with ast have dcs: "distinct (concat (map oids ?cs))"
    and ics: "oid ast \<notin> set (concat (map oids ?cs))"
    by (simp_all add: oids_Node)
  have ctx0: "node_context st0 (oid ast) = Some (k + 1)" by (simp add: st0_def)
  have arr0: "arrays st0 (k + 1) = Some []" by (simp add: st0_def)
  have a0: "k + 1 < next_id st0" by (simp add: st0_def)
  have "\<exists>st' es. traverseArray transformer_visitor ?cs ast st0 = Inr st'
        \<and> next_id st' = snd (spec_targets (node_type ast = CallExpression) ?cs (next_id st0))
        \<and> step_ok st0 st' (k + 1) [] es
             (fst (spec_targets (node_type ast = CallExpression) ?cs (next_id st0)))
             (concat (map oids ?cs))
        \<and> (\<forall>j \<in> set (concat (map call_oids ?cs)). node_context st' j \<noteq> None)"
    by (rule transform_nodes [OF _ wcs dcs ics ctx0 arr0 a0]) (rule transform_node)
  then obtain st' es where tr: "traverseArray transformer_visitor ?cs ast st0 = Inr st'"
    and s': "step_ok st0 st' (k + 1) [] es (fst (spec_targets False ?cs (k + 2)))
             (concat (map oids ?cs))"
    and c': "\<forall>j \<in> set (concat (map call_oids ?cs)). node_context st' j \<noteq> None"
    using ast ty by (auto simp: st0_def)
  let ?ts = "fst (spec_targets False ?cs (k + 2))"
  from s' have le: "k + 2 \<le> next_id st'" and es: "arrays st' (k + 1) = Some es"
    and rd: "read_elems (next_id st' - (k + 2)) (window st' (k + 2) (next_id st')) es = Some ?ts"
    and ctxf: "\<And>j. j \<notin> set (concat (map oids ?cs)) \<Longrightarrow> node_context st' j = node_context st0 j"
    by (simp_all add: step_ok_def st0_def)
  have trav: "traverser ast transformer_visitor st0 = Inr st'"
    using tr ast ty by (cases b) (simp_all add: traverser_def transformer_visitor_def call_method_def)
  then have t: "transformer ast k = Inr (?newAst, st')"
    by (simp add: transformer_def st0_def)
  have m: "arrays (window st' (k + 2) (next_id st')) \<subseteq>\<^sub>m arrays st'"
    by (auto simp: map_le_def)
  from le have f: "Suc (next_id st' - 1) = next_id st'" by simp
  from read_mono(2) [OF m rd, of "next_id st' - 1"]
  have "read_elems (next_id st' - 1) st' es = Some ?ts" by simp
  with es have "read_obj (Suc (next_id st' - 1)) st' ?newAst = Some (spec_transform ast k)"
    by (simp add: spec_transform_def)
  then have r: "read_obj (next_id st') st' ?newAst = Some (spec_transform ast k)"
    by (simp only: f)
  from ctxf [OF ics] ctx0 have c0: "node_context st' (oid ast) \<noteq> None" by simp
  from c' ast ty have "\<forall>j \<in> set (call_oids ast). node_context st' j \<noteq> None"
    by (simp add: call_oids_Node)
  with t r c0 show ?thesis by blast
qed

lemma count_calls_Node:
  "count_calls (Node i ty ps v n b) =
     (if ty = CallExpression then 1 else 0)
       + sum_list (map count_calls (spec_children (Node i ty ps v n b)))"
  by (subst count_calls.simps) simp


lemma count_spec_target:
  "wf_expr nd \<Longrightarrow> count_target_calls (fst (spec_target pc nd k)) = count_calls nd"
  "list_all wf_expr ns \<Longrightarrow>
     sum_list (map count_target_calls (fst (spec_targets pc ns k)))
       = sum_list (map count_calls ns)"
proof (induction pc nd k and pc ns k rule: spec_target_spec_targets.induct)
  case (1 pc i ty ps v n b k)
  show ?case
  proof (cases ty)
    case CallExpression
    show ?thesis
    proof (cases ps)
      case None
      with CallExpression show ?thesis by (simp add: count_calls_Node)
    next
      case (Some xs)
      with "1.IH" [OF CallExpression Some] "1.prems" CallExpression show ?thesis
        by (cases pc) (simp_all add: count_calls_Node case_prod_beta Let_def)
    qed
  next
    case Program
    with "1.prems" show ?thesis by simp
  next
    case NumberLiteral
    with "1.prems" show ?thesis by (simp add: count_calls_Node)
  next
    case StringLiteral
    with "1.prems" show ?thesis by (simp add: count_calls_Node)
  qed
next
  case (2 pc k)
  then show ?case by simp
next
  case (3 pc x xs k)
  from "3.prems" have "wf_expr x" "list_all wf_expr xs" by simp_all
  with "3.IH"(1) "3.IH"(2) [OF prod.collapse] show ?case
    by (simp add: case_prod_beta)
qed




section \<open>From the parser to the generator\<close>

text \<open>
  The tree that \<open>parser\<close> returns is valid and its identities lie below the counter
  that \<open>parser\<close> returns with it. So \<open>transformer\<close> does not throw on it, and
  \<open>compiler\<close> returns the generated code of its target tree.
\<close>

lemma fresh_nodes_append:
  assumes "fresh_nodes lo mid ns" and "fresh_nodes mid hi [nd]" and "lo \<le> mid" and "mid \<le> hi"
  shows "fresh_nodes lo hi (ns @ [nd])"
  using assms by (fastforce simp: fresh_nodes_def)

lemma walk_params_loop_fresh:
  "(\<forall>c tok nid nd c' tk' nid'.
      walk fuel tokens c tok nid = Some (Inr (nd, c', tk', nid')) \<longrightarrow>
        nid \<le> nid' \<and> fresh_nodes nid nid' [nd])
   \<and> (\<forall>c tok nid ps ps' c' tk' nid' lo.
      params_loop fuel tokens c tok nid ps = Some (Inr (ps', c', tk', nid')) \<longrightarrow>
        lo \<le> nid \<longrightarrow> fresh_nodes lo nid ps \<longrightarrow> nid \<le> nid' \<and> fresh_nodes lo nid' ps')"
proof (induction fuel)
  case 0
  then show ?case by simp
next
  case (Suc fuel)
  note IHw = Suc.IH [THEN conjunct1, rule_format]
  note IHl = Suc.IH [THEN conjunct2, rule_format]
  have w: "nid \<le> nid' \<and> fresh_nodes nid nid' [nd]"
    if run: "walk (Suc fuel) tokens c tok nid = Some (Inr (nd, c', tk', nid'))"
    for c tok nid nd c' tk' nid'
  proof -
    from run obtain t where tok: "tok = Some t" by (cases tok) auto
    show ?thesis
    proof (cases "tok_type t")
      case name
      with run tok show ?thesis by simp
    next
      case number
      with run tok show ?thesis by (auto simp: fresh_nodes_def oids_Node)
    next
      case string
      with run tok show ?thesis by (auto simp: fresh_nodes_def oids_Node)
    next
      case paren
      with run tok obtain nm ps c1 where
        pl: "params_loop fuel tokens (Suc (Suc c)) (js_index tokens (Suc (Suc c))) (Suc nid) []
               = Some (Inr (ps, c1, tk', nid'))"
        and nd: "nd = Node nid CallExpression (Some ps) None (Some nm) None"
        by (auto split: if_splits option.splits sum.splits)
      have "fresh_nodes (Suc nid) (Suc nid) []" by (simp add: fresh_nodes_def)
      from IHl [OF pl _ this] have "Suc nid \<le> nid'" and "fresh_nodes (Suc nid) nid' ps"
        by simp_all
      with nd show ?thesis by (auto simp: fresh_nodes_def oids_Node)
    qed
  qed
  have l: "nid \<le> nid' \<and> fresh_nodes lo nid' ps'"
    if run: "params_loop (Suc fuel) tokens c tok nid ps = Some (Inr (ps', c', tk', nid'))"
      and lo: "lo \<le> nid" and fr: "fresh_nodes lo nid ps"
    for c tok nid ps ps' c' tk' nid' lo
  proof -
    from run obtain t where tok: "tok = Some t" by (cases tok) auto
    show ?thesis
    proof (cases "tok_type t \<noteq> paren \<or> (tok_type t = paren \<and> tok_value t \<noteq> js '')'')")
      case False
      with run tok fr show ?thesis by auto
    next
      case True
      with run tok obtain nd c1 tk1 n1 where
        wk: "walk fuel tokens c tok nid = Some (Inr (nd, c1, tk1, n1))"
        and pl: "params_loop fuel tokens c1 (js_index tokens c1) n1 (ps @ [nd])
                   = Some (Inr (ps', c', tk', nid'))"
        by (auto split: option.splits sum.splits)
      from IHw [OF wk] have le: "nid \<le> n1" and f1: "fresh_nodes nid n1 [nd]" by simp_all
      from fresh_nodes_append [OF fr f1 lo le] have "fresh_nodes lo n1 (ps @ [nd])" .
      from IHl [OF pl _ this] lo le show ?thesis by simp
    qed
  qed
  from w l show ?case by blast
qed

lemma parser_loop_fresh:
  "parser_loop fuel tokens c tok nid bd = Some (Inr (bd', nid')) \<Longrightarrow>
     lo \<le> nid \<Longrightarrow> fresh_nodes lo nid bd \<Longrightarrow> nid \<le> nid' \<and> fresh_nodes lo nid' bd'"
proof (induction fuel arbitrary: c tok nid bd)
  case 0
  then show ?case by simp
next
  case (Suc fuel)
  show ?case
  proof (cases "c < length tokens")
    case False
    with Suc.prems show ?thesis by simp
  next
    case True
    with Suc.prems(1) obtain nd c1 tk1 n1 where
      wk: "walk fuel tokens c tok nid = Some (Inr (nd, c1, tk1, n1))"
      and pl: "parser_loop fuel tokens c1 tk1 n1 (bd @ [nd]) = Some (Inr (bd', nid'))"
      by (auto split: option.splits sum.splits)
    from walk_params_loop_fresh [THEN conjunct1, rule_format, OF wk]
    have le: "nid \<le> n1" and f1: "fresh_nodes nid n1 [nd]" by simp_all
    from fresh_nodes_append [OF Suc.prems(3) f1 Suc.prems(2) le]
    have "fresh_nodes lo n1 (bd @ [nd])" .
    from Suc.IH [OF pl _ this] Suc.prems(2) le show ?thesis by simp
  qed
qed

lemma parser_valid:
  assumes "parser tokens = Some (Inr (ast, k))"
  shows "valid_ast ast \<and> list_all (\<lambda>j. j < k) (oids ast)"
proof -
  from assms obtain bd where
    pl: "parser_loop (2 * length tokens + 3) tokens 0 (js_index tokens 0) 1 [] = Some (Inr (bd, k))"
    and ast: "ast = Node 0 Program None None None (Some bd)"
    by (auto simp: parser_def split: option.splits sum.splits)
  have "fresh_nodes 1 1 []" by (simp add: fresh_nodes_def)
  from parser_loop_fresh [OF pl _ this] have "1 \<le> k" and "fresh_nodes 1 k bd" by simp_all
  with ast show ?thesis
    by (auto simp: valid_ast_def fresh_nodes_def oids_Node list_all_iff)
qed

lemma compiler_pipeline:
  assumes "tokenizer input = Some tokens" and "parser tokens = Some (Inr (ast, k))"
  shows "compiler input = Some (Inr (codeGenerator (spec_transform ast k)))"
proof -
  from parser_valid [OF assms(2)] have "valid_ast ast" ..
  from transformer_valid [OF this, of k]
  have "transformer_tree ast k = Some (Inr (spec_transform ast k))"
    by (auto simp: transformer_tree_def)
  with assms show ?thesis by (simp add: compiler_def)
qed

section \<open>Runs on concrete inputs\<close>

lemma tokenizer_example:
  "tokenizer (js ''(add 2 (subtract 4 2))'') = Some
    [\<lparr>tok_type = paren, tok_value = js ''(''\<rparr>,
     \<lparr>tok_type = name, tok_value = js ''add''\<rparr>,
     \<lparr>tok_type = number, tok_value = js ''2''\<rparr>,
     \<lparr>tok_type = paren, tok_value = js ''(''\<rparr>,
     \<lparr>tok_type = name, tok_value = js ''subtract''\<rparr>,
     \<lparr>tok_type = number, tok_value = js ''4''\<rparr>,
     \<lparr>tok_type = number, tok_value = js ''2''\<rparr>,
     \<lparr>tok_type = paren, tok_value = js '')''\<rparr>,
     \<lparr>tok_type = paren, tok_value = js '')''\<rparr>]"
  by (simp add: tokenizer_eval)

lemma parser_example:
  "parser
    [\<lparr>tok_type = paren, tok_value = js ''(''\<rparr>,
     \<lparr>tok_type = name, tok_value = js ''add''\<rparr>,
     \<lparr>tok_type = number, tok_value = js ''2''\<rparr>,
     \<lparr>tok_type = paren, tok_value = js ''(''\<rparr>,
     \<lparr>tok_type = name, tok_value = js ''subtract''\<rparr>,
     \<lparr>tok_type = number, tok_value = js ''4''\<rparr>,
     \<lparr>tok_type = number, tok_value = js ''2''\<rparr>,
     \<lparr>tok_type = paren, tok_value = js '')''\<rparr>,
     \<lparr>tok_type = paren, tok_value = js '')''\<rparr>] =
   Some (Inr (Node 0 Program None None None
     (Some
       [Node 1 CallExpression
         (Some
           [Node 2 NumberLiteral None (Some (js ''2'')) None None,
            Node 3 CallExpression
              (Some
                [Node 4 NumberLiteral None (Some (js ''4'')) None None,
                 Node 5 NumberLiteral None (Some (js ''2'')) None None])
              None (Some (js ''subtract'')) None])
         None (Some (js ''add'')) None]), 6))"
  by (simp add: parser_eval)

lemma transformer_example:
  "(case transformer_tree (Node 0 Program None None None
     (Some
       [Node 1 CallExpression
         (Some
           [Node 2 NumberLiteral None (Some (js ''2'')) None None,
            Node 3 CallExpression
              (Some
                [Node 4 NumberLiteral None (Some (js ''4'')) None None,
                 Node 5 NumberLiteral None (Some (js ''2'')) None None])
              None (Some (js ''subtract'')) None])
         None (Some (js ''add'')) None])) 6 of
      None \<Rightarrow> None
    | Some (Inl e) \<Rightarrow> Some (Inl e)
    | Some (Inr newAst) \<Rightarrow> Some (Inr (codeGenerator newAst)))
   = Some (Inr (Arr [Str (js ''add(2,subtract(4,2));'')]))"
  by (simp add: transformer_tree_def transformer_eval generator_eval)

text \<open>
  C2. \<open>compiler\<close> on \<open>(add 2 (subtract 4 2))\<close> returns an array of one string, the
  statement \<open>add(2,subtract(4,2));\<close> with the semicolon of the \<open>ExpressionStatement\<close>.
\<close>

theorem compiler_example:
  "compiler (js ''(add 2 (subtract 4 2))'')
     = Some (Inr (Arr [Str (js ''add(2,subtract(4,2));'')]))"
  unfolding compiler_def tokenizer_example option.case parser_example sum.case prod.case
  by (rule transformer_example)

text \<open>
  C3. The claim: every token sequence in which a call is opened by a parenthesis and
  that ends before the closing parenthesis makes \<open>parser\<close> fail. In the tokens of
  \<open>2 (add\<close> the call is never closed, yet \<open>parser\<close> returns a tree: the loop of
  \<open>parser\<close> calls \<open>walk\<close> three times on the first token, which \<open>token\<close> still
  holds, and the body is three times the number.
\<close>

theorem parser_unterminated_call_returns:
  "parser
    [\<lparr>tok_type = number, tok_value = js ''2''\<rparr>,
     \<lparr>tok_type = paren, tok_value = js ''(''\<rparr>,
     \<lparr>tok_type = name, tok_value = js ''add''\<rparr>] =
   Some (Inr (Node 0 Program None None None
     (Some
       [Node 1 NumberLiteral None (Some (js ''2'')) None None,
        Node 2 NumberLiteral None (Some (js ''2'')) None None,
        Node 3 NumberLiteral None (Some (js ''2'')) None None]), 4))"
  by (simp add: parser_eval)

text \<open>
  The same variable makes \<open>parser\<close> throw on the tokens of \<open>(add 2 3)(subtract 4 3)\<close>,
  the input that the comment above the loop of \<open>parser\<close> gives as the reason for the
  loop: after the first call \<open>token\<close> still holds its closing parenthesis.
\<close>

lemma parser_two_top_level_calls_throws:
  "parser
    [\<lparr>tok_type = paren, tok_value = js ''(''\<rparr>,
     \<lparr>tok_type = name, tok_value = js ''add''\<rparr>,
     \<lparr>tok_type = number, tok_value = js ''2''\<rparr>,
     \<lparr>tok_type = number, tok_value = js ''3''\<rparr>,
     \<lparr>tok_type = paren, tok_value = js '')''\<rparr>,
     \<lparr>tok_type = paren, tok_value = js ''(''\<rparr>,
     \<lparr>tok_type = name, tok_value = js ''subtract''\<rparr>,
     \<lparr>tok_type = number, tok_value = js ''4''\<rparr>,
     \<lparr>tok_type = number, tok_value = js ''3''\<rparr>,
     \<lparr>tok_type = paren, tok_value = js '')''\<rparr>] =
   Some (Inl (TypeError (STR ''paren'')))"
  by (simp add: parser_eval)




text \<open>
  C5. For every valid source tree, \<open>transformer\<close> returns the \<open>Program\<close> whose body
  holds the targets of the top-level nodes: a call under the \<open>Program\<close> stands in an
  \<open>ExpressionStatement\<close>, a call under a call stands bare among the arguments of its
  parent's target, and which of the two depends on the kind of the parent alone
  (the first argument of \<open>spec_target\<close>).
\<close>

theorem transformer_wraps_by_parent:
  assumes "valid_ast ast"
  shows "transformer_tree ast k = Some (Inr (spec_transform ast k))"
  using transformer_valid [OF assms, of k] by (auto simp: transformer_tree_def)

text \<open>The tree of \<open>(add 2 (subtract 4 2))\<close>, as \<open>parser\<close> returns it.\<close>

theorem transformer_wraps_by_parent_witness:
  "valid_ast (Node 0 Program None None None
     (Some
       [Node 1 CallExpression
         (Some
           [Node 2 NumberLiteral None (Some (js ''2'')) None None,
            Node 3 CallExpression
              (Some
                [Node 4 NumberLiteral None (Some (js ''4'')) None None,
                 Node 5 NumberLiteral None (Some (js ''2'')) None None])
              None (Some (js ''subtract'')) None])
         None (Some (js ''add'')) None]))
   \<and> transformer_tree (Node 0 Program None None None
     (Some
       [Node 1 CallExpression
         (Some
           [Node 2 NumberLiteral None (Some (js ''2'')) None None,
            Node 3 CallExpression
              (Some
                [Node 4 NumberLiteral None (Some (js ''4'')) None None,
                 Node 5 NumberLiteral None (Some (js ''2'')) None None])
              None (Some (js ''subtract'')) None])
         None (Some (js ''add'')) None])) 6
     = Some (Inr (ParsedNode 6 (NodeType Program) None None None None
         (Some
           [ParsedNode 11 ExpressionStatement None None
             (Some
               (ParsedNode 10 (NodeType CallExpression) None None None
                 (Some
                   [ParsedNode 2 (NodeType NumberLiteral) (Some (js ''2'')) None None None
                      None None,
                    ParsedNode 14 (NodeType CallExpression) None None None
                      (Some
                        [ParsedNode 4 (NodeType NumberLiteral) (Some (js ''4'')) None None
                           None None None,
                         ParsedNode 5 (NodeType NumberLiteral) (Some (js ''2'')) None None
                           None None None])
                      None
                      (Some (ParsedNode 12 Identifier None (Some (js ''subtract'')) None
                               None None None))])
                 None
                 (Some (ParsedNode 8 Identifier None (Some (js ''add'')) None None None
                          None))))
             None None None])
         None))"
proof -
  let ?ast = "Node 0 Program None None None
     (Some
       [Node 1 CallExpression
         (Some
           [Node 2 NumberLiteral None (Some (js ''2'')) None None,
            Node 3 CallExpression
              (Some
                [Node 4 NumberLiteral None (Some (js ''4'')) None None,
                 Node 5 NumberLiteral None (Some (js ''2'')) None None])
              None (Some (js ''subtract'')) None])
         None (Some (js ''add'')) None])"
  have v: "valid_ast ?ast" by (simp add: valid_ast_def oids_Node)
  from transformer_wraps_by_parent [OF v, of 6]
  have "transformer_tree ?ast 6 = Some (Inr (spec_transform ?ast 6))" .
  then show ?thesis using v by (simp add: spec_transform_def)
qed

text \<open>
  C6. For every valid source tree, the target tree has as many \<open>CallExpression\<close>
  nodes as the source tree.
\<close>

theorem transformer_preserves_call_count:
  assumes "valid_ast ast"
  shows "map_option (map_sum id count_target_calls) (transformer_tree ast k)
           = Some (Inr (count_calls ast))"
proof -
  obtain i ty ps v n b where ast: "ast = Node i ty ps v n b" by (cases ast)
  from assms ast have ty: "ty = Program" by (simp add: valid_ast_def)
  from assms have w: "list_all wf_expr (spec_children ast)" by (simp add: valid_ast_def)
  from transformer_valid [OF assms, of k]
  have "transformer_tree ast k = Some (Inr (spec_transform ast k))"
    by (auto simp: transformer_tree_def)
  moreover have "count_target_calls (spec_transform ast k) = count_calls ast"
    using count_spec_target(2) [OF w, of False "k + 2"] ast ty
    by (simp add: spec_transform_def count_calls_Node)
  ultimately show ?thesis by simp
qed

text \<open>The same tree: two calls in the source, two in the target.\<close>

theorem transformer_preserves_call_count_witness:
  "valid_ast (Node 0 Program None None None
     (Some
       [Node 1 CallExpression
         (Some
           [Node 2 NumberLiteral None (Some (js ''2'')) None None,
            Node 3 CallExpression
              (Some
                [Node 4 NumberLiteral None (Some (js ''4'')) None None,
                 Node 5 NumberLiteral None (Some (js ''2'')) None None])
              None (Some (js ''subtract'')) None])
         None (Some (js ''add'')) None]))
   \<and> map_option (map_sum id count_target_calls)
       (transformer_tree (Node 0 Program None None None
         (Some
           [Node 1 CallExpression
             (Some
               [Node 2 NumberLiteral None (Some (js ''2'')) None None,
                Node 3 CallExpression
                  (Some
                    [Node 4 NumberLiteral None (Some (js ''4'')) None None,
                     Node 5 NumberLiteral None (Some (js ''2'')) None None])
                  None (Some (js ''subtract'')) None])
             None (Some (js ''add'')) None])) 6)
     = Some (Inr 2)"
proof -
  let ?ast = "Node 0 Program None None None
     (Some
       [Node 1 CallExpression
         (Some
           [Node 2 NumberLiteral None (Some (js ''2'')) None None,
            Node 3 CallExpression
              (Some
                [Node 4 NumberLiteral None (Some (js ''4'')) None None,
                 Node 5 NumberLiteral None (Some (js ''2'')) None None])
              None (Some (js ''subtract'')) None])
         None (Some (js ''add'')) None])"
  have v: "valid_ast ?ast" by (simp add: valid_ast_def oids_Node)
  have c: "count_calls ?ast = 2" by (simp add: count_calls_Node)
  from transformer_preserves_call_count [OF v, of 6] c v show ?thesis by simp
qed




end
